theory Spec2Isabelle
  imports Main "HOL-Library.Multiset" "HOL-Library.Sublist"
begin

section \<open>Word-frequency counter: embedding of \<^verbatim>\<open>word_frequency.py\<close>\<close>

text \<open>
  The text is a Python \<^verbatim>\<open>str\<close>, modelled as a \<^typ>\<open>string\<close> whose characters are the
  code points below 256. A dictionary is an association list in insertion order, as a
  Python \<^verbatim>\<open>dict\<close> iterates; its keys are pairwise distinct. Counts are Python integers.
\<close>

type_synonym dict = "(string \<times> int) list"

datatype py_error = ZeroDivisionError

subsection \<open>Characters: \<^verbatim>\<open>\w\<close> and \<^verbatim>\<open>str.lower\<close>\<close>

text \<open>
  \<^verbatim>\<open>\w\<close> in a \<^verbatim>\<open>str\<close> pattern matches the alphanumeric code points and the underscore;
  below 256 these are the ranges listed here.
\<close>

definition is_word_char :: "char \<Rightarrow> bool" where
  "is_word_char c =
     (let n = (of_char c :: nat)
      in (48 \<le> n \<and> n \<le> 57) \<or> (65 \<le> n \<and> n \<le> 90) \<or> n = 95 \<or> (97 \<le> n \<and> n \<le> 122)
         \<or> n = 170 \<or> (178 \<le> n \<and> n \<le> 179) \<or> n = 181 \<or> (185 \<le> n \<and> n \<le> 186)
         \<or> (188 \<le> n \<and> n \<le> 190) \<or> (192 \<le> n \<and> n \<le> 214) \<or> (216 \<le> n \<and> n \<le> 246)
         \<or> 248 \<le> n)"

definition lower_char :: "char \<Rightarrow> char" where
  "lower_char c =
     (let n = (of_char c :: nat)
      in if (65 \<le> n \<and> n \<le> 90) \<or> (192 \<le> n \<and> n \<le> 214) \<or> (216 \<le> n \<and> n \<le> 222)
         then char_of (n + 32) else c)"

definition lower :: "string \<Rightarrow> string" where
  "lower s = map lower_char s"

subsection \<open>Slices\<close>

text \<open>
  A slice bound of Python: a negative bound counts from the end, and every bound is
  clamped to the length.
\<close>

definition slice_bound :: "nat \<Rightarrow> int \<Rightarrow> nat" where
  "slice_bound n i = (if i < 0 then nat (max 0 (int n + i)) else min n (nat i))"

definition slice :: "'a list \<Rightarrow> int \<Rightarrow> int \<Rightarrow> 'a list" where
  "slice xs a b =
     (let lo = slice_bound (length xs) a; hi = slice_bound (length xs) b
      in take (hi - lo) (drop lo xs))"

definition slice_from :: "'a list \<Rightarrow> int \<Rightarrow> 'a list" where
  "slice_from xs a = drop (slice_bound (length xs) a) xs"

subsection \<open>The segments of \<^verbatim>\<open>map_reduce\<close>\<close>

text \<open>
  Lines 77 to 86. \<open>segment_length\<close> is the floor division of the source; the caller
  has excluded \<open>num_threads = 0\<close>. \<^verbatim>\<open>range(num_threads)\<close> is empty for a negative count.
\<close>

definition segments :: "string \<Rightarrow> int \<Rightarrow> string list" where
  "segments text num_threads =
     (let text_length = int (length text);
          segment_length = text_length div num_threads
      in map (\<lambda>i. if int i \<noteq> num_threads - 1
                   then slice text (int i * segment_length) ((int i + 1) * segment_length)
                   else slice_from text (int i * segment_length))
             [0..<nat num_threads])"

subsection \<open>The regular expression \<^verbatim>\<open>\b\w+\b\<close>\<close>

text \<open>
  \<^verbatim>\<open>\b\<close> holds between two positions when exactly one of the neighbouring characters
  is a word character; beyond either end of the string there is none. \<open>prev\<close> tells
  whether the character before the position is a word character.
\<close>

definition at_boundary :: "bool \<Rightarrow> string \<Rightarrow> bool" where
  "at_boundary prev rest = (prev \<noteq> (case rest of [] \<Rightarrow> False | c # _ \<Rightarrow> is_word_char c))"

text \<open>
  \<^verbatim>\<open>\w+\b\<close> is greedy: the longest run of word characters is tried first, and the
  matcher backtracks one character at a time until the closing \<^verbatim>\<open>\b\<close> holds.
\<close>

fun match_len :: "string \<Rightarrow> nat \<Rightarrow> nat option" where
  "match_len s 0 = None"
| "match_len s (Suc k) =
     (if at_boundary True (drop (Suc k) s) then Some (Suc k) else match_len s k)"

definition match_at :: "bool \<Rightarrow> string \<Rightarrow> nat option" where
  "match_at prev s =
     (if at_boundary prev s then match_len s (length (takeWhile is_word_char s)) else None)"

text \<open>
  \<^verbatim>\<open>re.findall\<close>: the pattern is tried at each position from left to right; after a
  match the scan goes on where the match ended, otherwise one character further.
\<close>

function findall_words :: "bool \<Rightarrow> string \<Rightarrow> string list" where
  "findall_words prev s =
     (case match_at prev s of
        Some k \<Rightarrow> take k s # findall_words True (drop k s)
      | None \<Rightarrow> (case s of [] \<Rightarrow> [] | c # cs \<Rightarrow> findall_words (is_word_char c) cs))"
  by pat_completeness auto
termination
proof (relation "measure (\<lambda>(prev, s). length s)")
  show "wf (measure (\<lambda>(prev, s). length s))" by simp
next
  fix prev :: bool and s :: string and k :: nat
  assume m: "match_at prev s = Some k"
  have bounds: "match_len s n = Some k \<Longrightarrow> 0 < k \<and> k \<le> n" for n
    by (induction n) (auto split: if_splits)
  from m have "match_len s (length (takeWhile is_word_char s)) = Some k"
    by (simp add: match_at_def split: if_splits)
  then have "0 < k \<and> k \<le> length (takeWhile is_word_char s)"
    by (rule bounds)
  moreover have "length (takeWhile is_word_char s) \<le> length s"
    by (rule length_takeWhile_le)
  ultimately have "0 < k \<and> k \<le> length s" by simp
  then have "length s - k < length s" by arith
  then show "((True, drop k s), (prev, s)) \<in> measure (\<lambda>(prev, s). length s)" by simp
next
  fix prev :: bool and s :: string and c :: char and cs :: string
  assume "s = c # cs"
  then show "((is_word_char c, cs), (prev, s)) \<in> measure (\<lambda>(prev, s). length s)" by simp
qed

declare findall_words.simps [simp del]

subsection \<open>Dictionaries\<close>

text \<open>
  \<^verbatim>\<open>d[w] += c\<close> on a \<^verbatim>\<open>defaultdict(int)\<close> and on a \<^verbatim>\<open>Counter\<close>: a missing key reads
  as 0 and is inserted last; a present key keeps its place.
\<close>

fun dict_add :: "dict \<Rightarrow> string \<Rightarrow> int \<Rightarrow> dict" where
  "dict_add [] w c = [(w, 0 + c)]"
| "dict_add ((k, v) # d) w c = (if k = w then (k, v + c) # d else (k, v) # dict_add d w c)"

text \<open>\<^verbatim>\<open>collections.Counter(words)\<close> adds 1 for each element in turn.\<close>

definition Counter :: "string list \<Rightarrow> dict" where
  "Counter ws = fold (\<lambda>w d. dict_add d w 1) ws []"

text \<open>The value a \<^verbatim>\<open>defaultdict(int)\<close> reads at a key.\<close>

definition count_of :: "dict \<Rightarrow> string \<Rightarrow> int" where
  "count_of d w = (case map_of d w of None \<Rightarrow> 0 | Some v \<Rightarrow> v)"

subsection \<open>\<^verbatim>\<open>map_worker\<close>\<close>

text \<open>
  Lines 57 to 65. \<open>stop_words\<close> defaults to the English stop words of NLTK, which are
  data outside the repository: it stays a parameter. \<open>partial_counts\<close> is the
  \<^verbatim>\<open>defaultdict(int)\<close> that \<open>map_reduce\<close> shares between the threads. The lock makes the
  merge loop one atomic step, so the worker is a function from the accumulator to the
  accumulator.
\<close>

definition tokens :: "string \<Rightarrow> string set \<Rightarrow> string list" where
  "tokens text_segment stop_words =
     (let words = findall_words False (lower text_segment)
      in filter (\<lambda>word. word \<notin> stop_words) words)"

definition map_worker :: "string \<Rightarrow> dict \<Rightarrow> string set \<Rightarrow> dict" where
  "map_worker text_segment partial_counts stop_words =
     (let words = tokens text_segment stop_words;
          local_counter = Counter words
      in fold (\<lambda>(word, count) d. dict_add d word count) local_counter partial_counts)"

subsection \<open>\<^verbatim>\<open>map_reduce\<close>\<close>

text \<open>
  Lines 88 to 102. Each thread merges once, under the lock, and all threads are joined
  before the accumulator is read, so a run is the sequence of the merges in the order in
  which the threads took the lock: \<open>order\<close> lists the thread numbers in that order.
  A schedule is such a list in which every thread occurs once.
\<close>

definition schedule :: "int \<Rightarrow> nat list \<Rightarrow> bool" where
  "schedule num_threads order = (sort order = [0..<nat num_threads])"

definition run_threads :: "string set \<Rightarrow> string list \<Rightarrow> nat list \<Rightarrow> dict" where
  "run_threads stop_words segs order =
     fold (\<lambda>i partial_counts. map_worker (segs ! i) partial_counts stop_words) order []"

definition map_reduce :: "string set \<Rightarrow> string \<Rightarrow> int \<Rightarrow> nat list \<Rightarrow> py_error + dict" where
  "map_reduce stop_words text num_threads order =
     (if num_threads = 0 then Inl ZeroDivisionError
      else Inr (run_threads stop_words (segments text num_threads) order))"

text \<open>The tokens that the workers of a run count, segment after segment.\<close>

definition all_tokens :: "string set \<Rightarrow> string list \<Rightarrow> string list" where
  "all_tokens sw segs = concat (map (\<lambda>s. tokens s sw) segs)"

subsection \<open>The ranking of \<^verbatim>\<open>visualize_top_words\<close>\<close>

text \<open>
  Line 113. \<^verbatim>\<open>Counter.most_common(n)\<close> is \<^verbatim>\<open>heapq.nlargest\<close> by count: the stable
  descending sort of the items cut to \<open>n\<close>, empty when \<open>n\<close> is not positive.
\<close>

definition most_common :: "dict \<Rightarrow> int \<Rightarrow> dict" where
  "most_common d n = take (nat n) (sort_key (\<lambda>(w, c). - c) d)"

definition top_words :: "dict \<Rightarrow> int \<Rightarrow> dict" where
  "top_words word_counts top_n = most_common word_counts top_n"

subsection \<open>The sequential reference count\<close>

text \<open>
  The reference that the one-worker run is compared with, written from the description:
  the tokens are the maximal runs of word characters of the lowercased text, read from
  left to right with the run in progress in \<open>cur\<close>; the table maps each token that is not a
  stop word to its number of occurrences, and has no entry for anything else.
\<close>

fun runs_from :: "string \<Rightarrow> string \<Rightarrow> string list" where
  "runs_from cur [] = (if cur = [] then [] else [cur])"
| "runs_from cur (c # cs) =
     (if is_word_char c then runs_from (cur @ [c]) cs
      else (if cur = [] then [] else [cur]) @ runs_from [] cs)"

definition maximal_runs :: "string \<Rightarrow> string list" where
  "maximal_runs s = runs_from [] s"

definition reference_count :: "string set \<Rightarrow> string \<Rightarrow> (string \<rightharpoonup> int)" where
  "reference_count stop_words text =
     (\<lambda>w. let occurrences = count_list (maximal_runs (lower text)) w
          in if w \<notin> stop_words \<and> 0 < occurrences then Some (int occurrences) else None)"

section \<open>The segments partition the text\<close>

lemma slice_bound_nat: "slice_bound n (int i) = min n i"
  by (simp add: slice_bound_def)

lemma slice_nat:
  "j \<le> length xs \<Longrightarrow> i \<le> j \<Longrightarrow> slice xs (int i) (int j) = take (j - i) (drop i xs)"
  by (simp add: slice_def slice_bound_nat Let_def min_def)

lemma slice_from_nat: "slice_from xs (int i) = drop i xs"
  by (simp add: slice_from_def slice_bound_nat min_def)

lemma block_le: "0 < n \<Longrightarrow> i \<le> n \<Longrightarrow> i * (l div n) \<le> (l::nat)"
proof -
  assume "0 < n" "i \<le> n"
  then have "i * (l div n) \<le> n * (l div n)" by simp
  also have "\<dots> \<le> l" by simp
  finally show ?thesis .
qed

lemma segments_nat:
  assumes "0 < n"
  shows "segments text (int n) =
           map (\<lambda>i. take (length text div n) (drop (i * (length text div n)) text)) [0..<n - 1]
           @ [drop ((n - 1) * (length text div n)) text]"
proof -
  let ?b = "length text div n"
  let ?F = "\<lambda>i. if int i \<noteq> int n - 1
                 then slice text (int i * int ?b) ((int i + 1) * int ?b)
                 else slice_from text (int i * int ?b)"
  let ?G = "\<lambda>i. take ?b (drop (i * ?b) text)"
  have div: "int (length text) div int n = int ?b" by (simp add: zdiv_int)
  from assms have upt: "[0..<n] = [0..<n - 1] @ [n - 1]"
    by (cases n) simp_all
  have inner: "?F i = ?G i" if "i < n - 1" for i
  proof -
    from that assms have "(i + 1) * ?b \<le> length text" by (intro block_le) auto
    moreover have "i * ?b \<le> (i + 1) * ?b" by simp
    ultimately have "slice text (int (i * ?b)) (int ((i + 1) * ?b))
        = take ((i + 1) * ?b - i * ?b) (drop (i * ?b) text)"
      by (rule slice_nat)
    moreover have "(i + 1) * ?b - i * ?b = ?b" by simp
    moreover have "int (i * ?b) = int i * int ?b" by simp
    moreover have "int ((i + 1) * ?b) = (int i + 1) * int ?b" by (simp add: algebra_simps)
    moreover from that have "int i \<noteq> int n - 1" by linarith
    ultimately show ?thesis by simp
  qed
  have last: "?F (n - 1) = drop ((n - 1) * ?b) text"
  proof -
    from assms have "int (n - 1) = int n - 1" by simp
    moreover have "slice_from text (int ((n - 1) * ?b)) = drop ((n - 1) * ?b) text"
      by (rule slice_from_nat)
    moreover have "int ((n - 1) * ?b) = int (n - 1) * int ?b" by simp
    ultimately show ?thesis by simp
  qed
  have "segments text (int n) = map ?F [0..<n]"
    by (simp add: segments_def Let_def div)
  also have "\<dots> = map ?F [0..<n - 1] @ [?F (n - 1)]"
    by (subst upt) simp
  also have "map ?F [0..<n - 1] = map ?G [0..<n - 1]"
    by (rule map_cong [OF refl]) (simp add: inner)
  finally show ?thesis by (simp only: last)
qed

lemma concat_blocks:
  "concat (map (\<lambda>i. take b (drop (i * b) xs)) [0..<k]) = take (k * b) xs"
proof (induction k)
  case 0
  show ?case by simp
next
  case (Suc k)
  have "take (k * b + b) xs = take (k * b) xs @ take b (drop (k * b) xs)"
    by (rule take_add)
  with Suc show ?case by (simp add: add.commute)
qed

lemma concat_segments: "0 < n \<Longrightarrow> concat (segments text (int n)) = text"
  by (simp add: segments_nat concat_blocks)

lemma drop_nth_upt: "drop m xs = map (\<lambda>j. xs ! j) [m..<length xs]"
proof -
  have "drop m xs = drop m (map (\<lambda>j. xs ! j) [0..<length xs])" by (simp add: map_nth)
  also have "\<dots> = map (\<lambda>j. xs ! j) [m..<length xs]" by (simp add: drop_map)
  finally show ?thesis .
qed

lemma block_nth_upt:
  "m + b \<le> length xs \<Longrightarrow> take b (drop m xs) = map (\<lambda>j. xs ! j) [m..<m + b]"
proof -
  assume le: "m + b \<le> length xs"
  have "take b (drop m xs) = take b (map (\<lambda>j. xs ! j) [m..<length xs])"
    by (simp add: drop_nth_upt [symmetric])
  also have "\<dots> = map (\<lambda>j. xs ! j) (take b [m..<length xs])" by (simp add: take_map)
  also from le have "take b [m..<length xs] = [m..<m + b]" by (rule take_upt)
  finally show ?thesis .
qed

text \<open>
  Claim C4. For a positive worker count \<open>N\<close> and a text of length \<open>L\<close>, with
  \<open>base = L div N\<close>: there are exactly \<open>N\<close> segments; segment \<open>i < N - 1\<close> holds the
  characters at the offsets from \<open>i * base\<close> up to \<open>(i + 1) * base\<close>, the last one those from
  \<open>(N - 1) * base\<close> up to \<open>L\<close>; the segments in order concatenate to the text, so they
  neither overlap nor leave a gap; their lengths add up to \<open>L\<close>; and for the empty text
  every segment is empty.
\<close>

theorem segments_partition:
  "0 < num_threads \<Longrightarrow>
     (let segs = segments text num_threads; N = nat num_threads;
          L = length text; base = L div N
      in length segs = N
       \<and> (\<forall>i. i < N - 1 \<longrightarrow> segs ! i = map (\<lambda>j. text ! j) [i * base..<(i + 1) * base])
       \<and> segs ! (N - 1) = map (\<lambda>j. text ! j) [(N - 1) * base..<L]
       \<and> concat segs = text
       \<and> sum_list (map length segs) = L
       \<and> (L = 0 \<longrightarrow> (\<forall>s. s \<in> set segs \<longrightarrow> s = [])))"
proof -
  assume pos: "0 < num_threads"
  define n where "n = nat num_threads"
  define b where "b = length text div n"
  define segs where "segs = segments text num_threads"
  from pos have n: "0 < n" "num_threads = int n" by (simp_all add: n_def)
  have segs: "segs = map (\<lambda>i. take b (drop (i * b) text)) [0..<n - 1] @ [drop ((n - 1) * b) text]"
    unfolding segs_def b_def n(2) using n(1) by (rule segments_nat)
  have len: "length segs = n" using n(1) by (simp add: segs)
  have inner: "segs ! i = map (\<lambda>j. text ! j) [i * b..<(i + 1) * b]" if "i < n - 1" for i
  proof -
    from that n(1) have "(i + 1) * b \<le> length text"
      unfolding b_def by (intro block_le) auto
    then have "i * b + b \<le> length text" by (simp add: algebra_simps)
    then have "take b (drop (i * b) text) = map (\<lambda>j. text ! j) [i * b..<i * b + b]"
      by (rule block_nth_upt)
    moreover from that have "segs ! i = take b (drop (i * b) text)"
      by (simp add: segs nth_append)
    ultimately show ?thesis by (simp add: algebra_simps)
  qed
  have last: "segs ! (n - 1) = map (\<lambda>j. text ! j) [(n - 1) * b..<length text]"
    by (simp add: segs nth_append drop_nth_upt [symmetric])
  have cat: "concat segs = text"
    unfolding segs_def n(2) using n(1) by (rule concat_segments)
  have "sum_list (map length segs) = length (concat segs)" by (simp add: length_concat)
  with cat have total: "sum_list (map length segs) = length text" by simp
  have empty: "s = []" if "length text = 0" "s \<in> set segs" for s
    using that by (auto simp: segs)
  from len inner last cat total empty show ?thesis
    unfolding Let_def segs_def [symmetric] n_def [symmetric] b_def [symmetric] by blast
qed

theorem segments_partition_witness:
  "0 < (2::int) \<and> segments ''abcde'' 2 = [''ab'', ''cde'']
     \<and> concat (segments ''abcde'' 2) = ''abcde''
     \<and> sum_list (map length (segments ''abcde'' 2)) = 5"
proof -
  have pos: "0 < (2::int)" by simp
  have segs: "segments ''abcde'' 2 = [''ab'', ''cde'']" by code_simp
  have "concat (segments ''abcde'' 2) = ''abcde''
      \<and> sum_list (map length (segments ''abcde'' 2)) = length ''abcde''"
    using segments_partition [OF pos, of "''abcde''"] unfolding Let_def by blast
  with pos segs show ?thesis by simp
qed

section \<open>Dictionaries read as mappings\<close>

lemma map_of_dict_add: "map_of (dict_add d k c) = (map_of d)(k \<mapsto> count_of d k + c)"
  by (induction d) (auto simp: count_of_def)

lemma count_of_dict_add:
  "count_of (dict_add d k c) w = (if w = k then count_of d k + c else count_of d w)"
  by (simp add: count_of_def map_of_dict_add)

lemma dom_dict_add: "dom (map_of (dict_add d k c)) = insert k (dom (map_of d))"
  by (simp add: map_of_dict_add)

lemma keys_dom: "set (map fst d) = dom (map_of d)"
  by (simp add: dom_map_of_conv_image_fst)

lemma distinct_dict_add:
  "distinct (map fst d) \<Longrightarrow> distinct (map fst (dict_add d k c))"
proof (induction d)
  case Nil
  show ?case by simp
next
  case (Cons p d)
  obtain k' v where p: "p = (k', v)" by (cases p)
  from Cons.prems have fresh: "k' \<notin> dom (map_of d)" and dist: "distinct (map fst d)"
    by (simp_all add: p keys_dom del: set_map)
  from dist have "distinct (map fst (dict_add d k c))" by (rule Cons.IH)
  moreover from fresh have "k' \<noteq> k \<Longrightarrow> k' \<notin> dom (map_of (dict_add d k c))"
    by (simp add: dom_dict_add)
  ultimately show ?case using fresh dist
    by (auto simp: p keys_dom simp del: set_map)
qed

lemma map_of_count_of:
  "map_of d w = (if w \<in> dom (map_of d) then Some (count_of d w) else None)"
  by (auto simp: count_of_def)

text \<open>Counting a list of words into a dictionary.\<close>

lemma count_of_fold_words:
  "count_of (fold (\<lambda>w d. dict_add d w 1) ws d) w = count_of d w + int (count_list ws w)"
  by (induction ws arbitrary: d) (simp_all add: count_of_dict_add)

lemma dom_fold_words:
  "dom (map_of (fold (\<lambda>w d. dict_add d w 1) ws d)) = dom (map_of d) \<union> set ws"
  by (induction ws arbitrary: d) (simp_all add: dom_dict_add)

lemma distinct_fold_words:
  "distinct (map fst d) \<Longrightarrow> distinct (map fst (fold (\<lambda>w d. dict_add d w 1) ws d))"
  by (induction ws arbitrary: d) (simp_all add: distinct_dict_add)

lemma count_of_Nil: "count_of [] w = 0"
  by (simp add: count_of_def)

lemma count_of_Counter: "count_of (Counter ws) w = int (count_list ws w)"
  by (simp add: Counter_def count_of_fold_words count_of_Nil)

lemma dom_Counter: "dom (map_of (Counter ws)) = set ws"
  by (simp add: Counter_def dom_fold_words)

lemma distinct_Counter: "distinct (map fst (Counter ws))"
  by (simp add: Counter_def distinct_fold_words)

text \<open>Merging a list of items into a dictionary.\<close>

lemma count_of_fold_items:
  "count_of (fold (\<lambda>(word, count) d. dict_add d word count) its d) w
     = count_of d w + sum_list (map snd (filter (\<lambda>p. fst p = w) its))"
  by (induction its arbitrary: d) (auto simp: count_of_dict_add)

lemma dom_fold_items:
  "dom (map_of (fold (\<lambda>(word, count) d. dict_add d word count) its d))
     = dom (map_of d) \<union> fst ` set its"
  by (induction its arbitrary: d) (simp_all add: dom_dict_add case_prod_beta)


lemma sum_items_count_of:
  "distinct (map fst d) \<Longrightarrow> sum_list (map snd (filter (\<lambda>p. fst p = w) d)) = count_of d w"
proof (induction d)
  case Nil
  show ?case by (simp add: count_of_def)
next
  case (Cons p d)
  obtain k v where p: "p = (k, v)" by (cases p)
  from Cons.prems have fresh: "k \<notin> fst ` set d" and dist: "distinct (map fst d)"
    by (simp_all add: p)
  show ?case
  proof (cases "k = w")
    case True
    with fresh have "filter (\<lambda>p. fst p = w) d = []" by (auto simp: filter_empty_conv)
    with True show ?thesis by (simp add: p count_of_def)
  next
    case False
    with Cons.IH [OF dist] show ?thesis by (simp add: p count_of_def)
  qed
qed

lemma count_of_map_worker:
  "count_of (map_worker seg acc sw) w = count_of acc w + int (count_list (tokens seg sw) w)"
  by (simp add: map_worker_def Let_def count_of_fold_items sum_items_count_of
      distinct_Counter count_of_Counter)

lemma dom_map_worker:
  "dom (map_of (map_worker seg acc sw)) = dom (map_of acc) \<union> set (tokens seg sw)"
  by (simp add: map_worker_def Let_def dom_fold_items dom_map_of_conv_image_fst [symmetric] dom_Counter)


section \<open>The merge of one worker\<close>

text \<open>
  Claim C10. Whatever the accumulator holds, after \<open>map_worker\<close> has run on a segment a word
  that is not among the segment's filtered tokens has the entry it had before, no key of
  the accumulator is gone, and the count read at any word is at least what it was.
\<close>

theorem map_worker_frame:
  "(w \<notin> set (tokens seg sw) \<longrightarrow> map_of (map_worker seg acc sw) w = map_of acc w)
     \<and> dom (map_of acc) \<subseteq> dom (map_of (map_worker seg acc sw))
     \<and> count_of acc w \<le> count_of (map_worker seg acc sw) w"
proof -
  have keep: "map_of (map_worker seg acc sw) w = map_of acc w" if "w \<notin> set (tokens seg sw)"
  proof -
    from that have "count_list (tokens seg sw) w = 0" by (simp add: count_list_0_iff)
    then have "count_of (map_worker seg acc sw) w = count_of acc w"
      by (simp add: count_of_map_worker)
    moreover from that have "w \<in> dom (map_of (map_worker seg acc sw)) \<longleftrightarrow> w \<in> dom (map_of acc)"
      by (simp add: dom_map_worker)
    ultimately show ?thesis
      using map_of_count_of [of "map_worker seg acc sw" w] map_of_count_of [of acc w] by simp
  qed
  have "dom (map_of acc) \<subseteq> dom (map_of (map_worker seg acc sw))"
    by (simp add: dom_map_worker)
  moreover have "count_of acc w \<le> count_of (map_worker seg acc sw) w"
    by (simp add: count_of_map_worker)
  ultimately show ?thesis using keep by blast
qed

theorem map_worker_frame_witness:
  "''c'' \<notin> set (tokens ''a b a'' {})
     \<and> map_worker ''a b a'' [(''c'', 5), (''a'', 1)] {} = [(''c'', 5), (''a'', 3), (''b'', 1)]
     \<and> map_of (map_worker ''a b a'' [(''c'', 5), (''a'', 1)] {}) ''c'' = map_of [(''c'', 5), (''a'', 1)] ''c''"
proof -
  have toks: "tokens ''a b a'' {} = [''a'', ''b'', ''a'']" by code_simp
  then have out: "''c'' \<notin> set (tokens ''a b a'' {})" by simp
  have run: "map_worker ''a b a'' [(''c'', 5), (''a'', 1)] {} = [(''c'', 5), (''a'', 3), (''b'', 1)]"
    by code_simp
  from out map_worker_frame [of "''c''" "''a b a''" "{}" "[(''c'', 5), (''a'', 1)]"]
  have "map_of (map_worker ''a b a'' [(''c'', 5), (''a'', 1)] {}) ''c'' = map_of [(''c'', 5), (''a'', 1)] ''c''"
    by blast
  with out run show ?thesis by blast
qed

section \<open>The table of a run\<close>

lemma count_of_fold_workers:
  "count_of (fold (\<lambda>i partial_counts. map_worker (segs ! i) partial_counts sw) order d) w
     = count_of d w + (\<Sum>i\<leftarrow>order. int (count_list (tokens (segs ! i) sw) w))"
  by (induction order arbitrary: d) (simp_all add: count_of_map_worker)

lemma dom_fold_workers:
  "dom (map_of (fold (\<lambda>i partial_counts. map_worker (segs ! i) partial_counts sw) order d))
     = dom (map_of d) \<union> (\<Union>i\<in>set order. set (tokens (segs ! i) sw))"
  by (induction order arbitrary: d) (simp_all add: dom_map_worker Un_assoc)


lemma schedule_mset: "schedule n order \<Longrightarrow> mset order = mset [0..<nat n]"
proof -
  assume "schedule n order"
  then have "mset (sort order) = mset [0..<nat n]" by (simp add: schedule_def)
  then show ?thesis by simp
qed

lemma schedule_sum:
  fixes f :: "nat \<Rightarrow> int"
  assumes "schedule n order"
  shows "(\<Sum>i\<leftarrow>order. f i) = (\<Sum>i\<leftarrow>[0..<nat n]. f i)"
proof -
  have "(\<Sum>i\<leftarrow>order. f i) = sum_mset (image_mset f (mset order))"
    by (simp flip: sum_mset_sum_list)
  also have "\<dots> = sum_mset (image_mset f (mset [0..<nat n]))"
    using assms by (simp only: schedule_mset)
  also have "\<dots> = (\<Sum>i\<leftarrow>[0..<nat n]. f i)"
    by (simp flip: sum_mset_sum_list)
  finally show ?thesis .
qed

lemma schedule_set: "schedule n order \<Longrightarrow> set order = set [0..<nat n]"
  by (drule schedule_mset) (rule mset_eq_setD)

lemma count_list_concat:
  "int (count_list (concat xss) w) = (\<Sum>xs\<leftarrow>xss. int (count_list xs w))"
  by (induction xss) simp_all

lemma over_indices: "map (\<lambda>i. f (segs ! i)) [0..<length segs] = map f segs"
proof -
  have "map (\<lambda>i. f (segs ! i)) [0..<length segs] = map f (map (\<lambda>i. segs ! i) [0..<length segs])"
    by (simp add: comp_def)
  then show ?thesis by (simp add: map_nth)
qed

lemma run_threads_count:
  assumes "schedule n order" and "length segs = nat n"
  shows "count_of (run_threads sw segs order) w = int (count_list (all_tokens sw segs) w)"
proof -
  have "count_of (run_threads sw segs order) w
      = (\<Sum>i\<leftarrow>order. int (count_list (tokens (segs ! i) sw) w))"
    by (simp add: run_threads_def count_of_fold_workers count_of_Nil)
  also have "\<dots> = (\<Sum>i\<leftarrow>[0..<length segs]. int (count_list (tokens (segs ! i) sw) w))"
    using assms(1) unfolding assms(2) by (rule schedule_sum)
  also have "\<dots> = sum_list (map (\<lambda>s. int (count_list (tokens s sw) w)) segs)"
    using over_indices [of "\<lambda>s. int (count_list (tokens s sw) w)" segs] by simp
  also have "\<dots> = int (count_list (all_tokens sw segs) w)"
    by (simp add: all_tokens_def count_list_concat comp_def)
  finally show ?thesis .
qed

lemma run_threads_dom:
  assumes "schedule n order" and "length segs = nat n"
  shows "dom (map_of (run_threads sw segs order)) = set (all_tokens sw segs)"
proof -
  have "dom (map_of (run_threads sw segs order))
      = (\<Union>i\<in>set order. set (tokens (segs ! i) sw))"
    by (simp add: run_threads_def dom_fold_workers)
  also have "\<dots> = (\<Union>i\<in>set [0..<length segs]. set (tokens (segs ! i) sw))"
    using schedule_set [OF assms(1)] by (simp only: assms(2))
  also have "\<dots> = \<Union> (set (map (\<lambda>i. set (tokens (segs ! i) sw)) [0..<length segs]))"
    by (simp only: set_map)
  also have "\<dots> = \<Union> (set (map (\<lambda>s. set (tokens s sw)) segs))"
    using over_indices [of "\<lambda>s. set (tokens s sw)" segs] by simp
  finally show ?thesis by (simp add: all_tokens_def)
qed


lemma run_threads_table:
  assumes "schedule n order" and "length segs = nat n"
  shows "map_of (run_threads sw segs order) w =
           (if w \<in> set (all_tokens sw segs) then Some (int (count_list (all_tokens sw segs) w))
            else None)"
  using map_of_count_of [of "run_threads sw segs order" w]
  by (simp only: run_threads_dom [OF assms] run_threads_count [OF assms])

lemma length_segments: "length (segments text n) = nat n"
  by (simp add: segments_def Let_def)

lemma map_reduce_table:
  assumes "schedule n order" and "map_reduce sw text n order = Inr d"
  shows "map_of d w =
           (if w \<in> set (all_tokens sw (segments text n))
            then Some (int (count_list (all_tokens sw (segments text n)) w)) else None)"
proof -
  from assms(2) have "d = run_threads sw (segments text n) order"
    by (simp add: map_reduce_def split: if_splits)
  with run_threads_table [OF assms(1) length_segments] show ?thesis by simp
qed



section \<open>The table and the merge order\<close>




section \<open>Stop words\<close>

lemma tokens_not_stop: "w \<in> set (tokens seg sw) \<Longrightarrow> w \<notin> sw"
  by (simp add: tokens_def Let_def)

text \<open>
  Claim C7. Whatever the stop-word set, a word in it is not a key of the table that the
  run returns.
\<close>

theorem stop_words_excluded:
  "schedule num_threads order \<Longrightarrow> map_reduce sw text num_threads order = Inr d \<Longrightarrow>
     w \<in> sw \<Longrightarrow> w \<notin> fst ` set d"
proof -
  assume s: "schedule num_threads order" and r: "map_reduce sw text num_threads order = Inr d"
    and w: "w \<in> sw"
  have "w \<notin> set (all_tokens sw (segments text num_threads))"
    using w by (auto simp: all_tokens_def dest: tokens_not_stop)
  then have "map_of d w = None" by (simp add: map_reduce_table [OF s r])
  then show ?thesis by (simp add: map_of_eq_None_iff)
qed

theorem stop_words_excluded_witness:
  "schedule 2 [1, 0] \<and> map_reduce {''the''} ''The cat, the dog'' 2 [1, 0] = Inr [(''dog'', 1), (''cat'', 1)]
     \<and> ''the'' \<in> {''the''} \<and> ''the'' \<notin> fst ` set [(''dog'', 1 :: int), (''cat'', 1)]"
proof -
  have s: "schedule 2 [1, 0]" by code_simp
  have r: "map_reduce {''the''} ''The cat, the dog'' 2 [1, 0] = Inr [(''dog'', 1), (''cat'', 1)]"
    by code_simp
  have w: "''the'' \<in> {''the''}" by simp
  from stop_words_excluded [OF s r w] s r w show ?thesis by blast
qed

section \<open>The example of the specification\<close>

lemma example_tokens_1:
  "all_tokens {''the'', ''on''} (segments ''The cat sat on the mat. The cat ran.'' 1)
     = [''cat'', ''sat'', ''mat'', ''cat'', ''ran'']"
  by code_simp

lemma example_tokens_3:
  "all_tokens {''the'', ''on''} (segments ''The cat sat on the mat. The cat ran.'' 3)
     = [''cat'', ''sat'', ''mat'', ''cat'', ''ran'']"
  by code_simp

lemma example_table:
  "(\<lambda>w. if w \<in> set [''cat'', ''sat'', ''mat'', ''cat'', ''ran'']
         then Some (int (count_list [''cat'', ''sat'', ''mat'', ''cat'', ''ran''] w)) else None)
     = [''cat'' \<mapsto> 2, ''sat'' \<mapsto> 1, ''mat'' \<mapsto> 1, ''ran'' \<mapsto> 1]"
  by (rule ext) simp

text \<open>
  Claim C8. On the text \<^verbatim>\<open>The cat sat on the mat. The cat ran.\<close> with the stop words
  \<^verbatim>\<open>the\<close> and \<^verbatim>\<open>on\<close>, the run with one worker and the run with three workers, in whatever
  order the three merge, both return the table \<^verbatim>\<open>{cat: 2, sat: 1, mat: 1, ran: 1}\<close>. The
  text has 36 characters and the two cuts of the three-worker run fall after a space.
\<close>

theorem example_pipeline:
  "(schedule 1 order1 \<longrightarrow>
      (\<exists>d. map_reduce {''the'', ''on''} ''The cat sat on the mat. The cat ran.'' 1 order1 = Inr d
         \<and> map_of d = [''cat'' \<mapsto> 2, ''sat'' \<mapsto> 1, ''mat'' \<mapsto> 1, ''ran'' \<mapsto> 1]))
   \<and> (schedule 3 order3 \<longrightarrow>
      (\<exists>d. map_reduce {''the'', ''on''} ''The cat sat on the mat. The cat ran.'' 3 order3 = Inr d
         \<and> map_of d = [''cat'' \<mapsto> 2, ''sat'' \<mapsto> 1, ''mat'' \<mapsto> 1, ''ran'' \<mapsto> 1]))"
proof -
  let ?sw = "{''the'', ''on''}" and ?text = "''The cat sat on the mat. The cat ran.''"
  have run: "\<exists>d. map_reduce ?sw ?text n order = Inr d
      \<and> map_of d = [''cat'' \<mapsto> 2, ''sat'' \<mapsto> 1, ''mat'' \<mapsto> 1, ''ran'' \<mapsto> 1]"
    if s: "schedule n order" and n: "n \<noteq> 0"
      and toks: "all_tokens ?sw (segments ?text n) = [''cat'', ''sat'', ''mat'', ''cat'', ''ran'']"
    for n order
  proof -
    define d where "d = run_threads ?sw (segments ?text n) order"
    from n have r: "map_reduce ?sw ?text n order = Inr d"
      by (simp add: map_reduce_def d_def)
    have "map_of d = (\<lambda>w. if w \<in> set [''cat'', ''sat'', ''mat'', ''cat'', ''ran'']
         then Some (int (count_list [''cat'', ''sat'', ''mat'', ''cat'', ''ran''] w)) else None)"
      by (rule ext) (simp only: map_reduce_table [OF s r] toks)
    with r show ?thesis by (simp only: example_table) blast
  qed
  show ?thesis
    using run [of 1 order1, OF _ _ example_tokens_1] run [of 3 order3, OF _ _ example_tokens_3]
    by simp
qed

theorem example_pipeline_witness:
  "schedule 1 [0] \<and> schedule 3 [2, 0, 1]
   \<and> map_reduce {''the'', ''on''} ''The cat sat on the mat. The cat ran.'' 1 [0]
       = Inr [(''cat'', 2), (''sat'', 1), (''mat'', 1), (''ran'', 1)]
   \<and> map_reduce {''the'', ''on''} ''The cat sat on the mat. The cat ran.'' 3 [2, 0, 1]
       = Inr [(''cat'', 2), (''ran'', 1), (''sat'', 1), (''mat'', 1)]
   \<and> map_of [(''cat'', 2), (''ran'', 1), (''sat'', 1), (''mat'', 1)]
       = [''cat'' \<mapsto> 2 :: int, ''sat'' \<mapsto> 1, ''mat'' \<mapsto> 1, ''ran'' \<mapsto> 1]"
proof -
  have s1: "schedule 1 [0]" by code_simp
  have s3: "schedule 3 [2, 0, 1]" by code_simp
  have r1: "map_reduce {''the'', ''on''} ''The cat sat on the mat. The cat ran.'' 1 [0]
       = Inr [(''cat'', 2), (''sat'', 1), (''mat'', 1), (''ran'', 1)]" by code_simp
  have r3: "map_reduce {''the'', ''on''} ''The cat sat on the mat. The cat ran.'' 3 [2, 0, 1]
       = Inr [(''cat'', 2), (''ran'', 1), (''sat'', 1), (''mat'', 1)]" by code_simp
  from example_pipeline [of "[0]" "[2, 0, 1]"] s1 s3
  have "map_of [(''cat'', 2), (''sat'', 1), (''mat'', 1), (''ran'', 1)]
       = [''cat'' \<mapsto> 2 :: int, ''sat'' \<mapsto> 1, ''mat'' \<mapsto> 1, ''ran'' \<mapsto> 1]
     \<and> map_of [(''cat'', 2), (''ran'', 1), (''sat'', 1), (''mat'', 1)]
       = [''cat'' \<mapsto> 2 :: int, ''sat'' \<mapsto> 1, ''mat'' \<mapsto> 1, ''ran'' \<mapsto> 1]"
    unfolding r1 r3 by blast
  with s1 s3 r1 r3 show ?thesis by blast
qed

section \<open>The worker count changes the table\<close>

text \<open>
  Claim C1 says that the table is the same for every positive worker count, although a
  cut may fall inside a word. It is not: the two halves of a word that is cut are counted
  as two words. The text \<^verbatim>\<open>cat\<close> gives \<^verbatim>\<open>{cat: 1}\<close> with one worker and
  \<^verbatim>\<open>{c: 1, a: 1, t: 1}\<close> with three.
\<close>

theorem split_word_differs:
  "schedule 1 [0] \<and> schedule 3 [0, 1, 2]
   \<and> map_reduce {} ''cat'' 1 [0] = Inr [(''cat'', 1)]
   \<and> map_reduce {} ''cat'' 3 [0, 1, 2] = Inr [(''c'', 1), (''a'', 1), (''t'', 1)]"
  by code_simp

section \<open>A worker count that is not positive\<close>

text \<open>
  Claim C2 says that a worker count \<open>N \<le> 0\<close> makes the run fail, and that no table is
  returned. For a negative count the source raises nothing: \<^verbatim>\<open>range(num_threads)\<close> is empty,
  no thread runs, and the empty table is returned.
\<close>

theorem negative_count_returns_table:
  "schedule (- 1) [] \<and> map_reduce {} ''abc'' (- 1) [] = Inr []"
  by code_simp

text \<open>
  Claim C2 as amended. With the worker count 0 the run fails at the division of line 78,
  before a segment is cut or a thread is created, and returns no table. With a negative
  worker count there is no thread to schedule, and the run returns the empty table.
\<close>

theorem map_reduce_nonpositive:
  "(num_threads = 0 \<longrightarrow> map_reduce sw text num_threads order = Inl ZeroDivisionError)
   \<and> (num_threads < 0 \<longrightarrow> schedule num_threads order \<longrightarrow>
        order = [] \<and> map_reduce sw text num_threads order = Inr [])"
proof -
  have "order = [] \<and> map_reduce sw text num_threads order = Inr []"
    if neg: "num_threads < 0" and s: "schedule num_threads order"
  proof -
    from s neg have "mset order = {#}" by (simp add: schedule_mset)
    then have "order = []" by simp
    with neg show ?thesis by (simp add: map_reduce_def run_threads_def)
  qed
  then show ?thesis by (simp add: map_reduce_def)
qed

theorem map_reduce_nonpositive_witness:
  "map_reduce {} ''abc'' 0 [] = Inl ZeroDivisionError
   \<and> (- 2 :: int) < 0 \<and> schedule (- 2) [] \<and> map_reduce {} ''abc'' (- 2) [] = Inr []"
proof -
  have s: "schedule (- 2) []" by code_simp
  from map_reduce_nonpositive [of 0 "{}" "''abc''" "[]"]
  have zero: "map_reduce {} ''abc'' 0 [] = Inl ZeroDivisionError" by simp
  from map_reduce_nonpositive [of "- 2" "{}" "''abc''" "[]"] s
  have "map_reduce {} ''abc'' (- 2) [] = Inr []" by simp
  with zero s show ?thesis by simp
qed

section \<open>One worker computes the sequential reference count\<close>

text \<open>
  The matches of \<^verbatim>\<open>\b\w+\b\<close> are the maximal runs of word characters: a match can only
  start where a run starts, the greedy \<^verbatim>\<open>\w+\<close> takes the whole run, and the closing
  \<^verbatim>\<open>\b\<close> holds there, so the matcher never backtracks into a run.
\<close>

lemma runs_from_split:
  "runs_from cur s =
     (if cur @ takeWhile is_word_char s = [] then [] else [cur @ takeWhile is_word_char s])
     @ runs_from [] (dropWhile is_word_char s)"
  by (induction s arbitrary: cur) simp_all

lemma maximal_runs_word:
  "is_word_char c \<Longrightarrow>
     maximal_runs (c # cs) = takeWhile is_word_char (c # cs) # maximal_runs (dropWhile is_word_char cs)"
  using runs_from_split [of "[]" "c # cs"] by (simp add: maximal_runs_def)

lemma maximal_runs_other: "\<not> is_word_char c \<Longrightarrow> maximal_runs (c # cs) = maximal_runs cs"
  by (simp add: maximal_runs_def)

lemma boundary_after_run: "at_boundary True (dropWhile is_word_char s)"
proof (cases "dropWhile is_word_char s")
  case Nil
  have "at_boundary True []" by (simp add: at_boundary_def)
  then show ?thesis by (simp only: Nil)
next
  case (Cons c cs)
  then have "dropWhile is_word_char s \<noteq> []" by simp
  then have "\<not> is_word_char (hd (dropWhile is_word_char s))"
    by (rule hd_dropWhile)
  with Cons show ?thesis by (simp add: at_boundary_def)
qed

lemma match_at_word:
  assumes "is_word_char c"
  shows "match_at False (c # cs) = Some (length (takeWhile is_word_char (c # cs)))"
proof -
  let ?s = "c # cs"
  from assms obtain k where k: "length (takeWhile is_word_char ?s) = Suc k" by simp
  have "drop (length (takeWhile is_word_char ?s)) ?s = dropWhile is_word_char ?s"
    by (rule dropWhile_eq_drop [symmetric])
  then have "at_boundary True (drop (Suc k) ?s)"
    using boundary_after_run [of ?s] by (simp only: k)
  then have "match_len ?s (Suc k) = Some (Suc k)" by simp
  moreover from assms have "at_boundary False ?s" by (simp add: at_boundary_def)
  ultimately show ?thesis by (simp only: match_at_def k if_True)
qed

lemma match_at_other: "\<not> is_word_char c \<Longrightarrow> match_at prev (c # cs) = None"
  by (simp add: match_at_def at_boundary_def)

lemma match_at_inside: "is_word_char c \<Longrightarrow> match_at True (c # cs) = None"
  by (simp add: match_at_def at_boundary_def)

lemma match_at_Nil: "match_at prev [] = None"
  by (simp add: match_at_def at_boundary_def)

lemma findall_words_runs:
  "findall_words prev s = maximal_runs (if prev then dropWhile is_word_char s else s)"
proof (induction prev s rule: findall_words.induct)
  case (1 prev s)
  show ?case
  proof (cases s)
    case Nil
    have "findall_words prev [] = []"
      by (subst findall_words.simps) (simp add: match_at_Nil)
    with Nil show ?thesis by (simp add: maximal_runs_def)
  next
    case (Cons c cs)
    show ?thesis
    proof (cases "is_word_char c")
      case False
      then have m: "match_at prev s = None" by (simp add: Cons match_at_other)
      from "1.IH"(1) [OF m Cons] False have "findall_words False cs = maximal_runs cs" by simp
      moreover have "findall_words prev s = findall_words False cs"
        using m unfolding Cons by (subst findall_words.simps) (simp add: False)
      moreover from False
      have "maximal_runs (if prev then dropWhile is_word_char s else s) = maximal_runs cs"
        by (simp add: Cons maximal_runs_other)
      ultimately show ?thesis by simp
    next
      case True
      show ?thesis
      proof (cases prev)
        case inside: True
        from True inside have m: "match_at prev s = None"
          by (simp add: Cons match_at_inside)
        from "1.IH"(1) [OF m Cons] True
        have "findall_words True cs = maximal_runs (dropWhile is_word_char cs)" by simp
        moreover have "findall_words prev s = findall_words True cs"
          using m unfolding Cons by (subst findall_words.simps) (simp add: True)
        moreover from True inside
        have "maximal_runs (if prev then dropWhile is_word_char s else s)
            = maximal_runs (dropWhile is_word_char cs)"
          by (simp add: Cons)
        ultimately show ?thesis by simp
      next
        case start: False
        let ?k = "length (takeWhile is_word_char s)"
        from True start have m: "match_at prev s = Some ?k"
          by (simp add: Cons match_at_word)
        have rest: "drop ?k s = dropWhile is_word_char s"
          by (rule dropWhile_eq_drop [symmetric])
        have run: "take ?k s = takeWhile is_word_char s"
          by (rule takeWhile_eq_take [symmetric])
        from "1.IH"(2) [OF m]
        have "findall_words True (drop ?k s) = maximal_runs (dropWhile is_word_char (drop ?k s))"
          by simp
        then have "findall_words True (drop ?k s) = maximal_runs (dropWhile is_word_char s)"
          by (simp only: rest dropWhile_idem)
        moreover have "findall_words prev s = take ?k s # findall_words True (drop ?k s)"
          by (subst findall_words.simps) (simp add: m)
        moreover from True
        have "maximal_runs s = takeWhile is_word_char s # maximal_runs (dropWhile is_word_char s)"
          by (simp add: Cons maximal_runs_word)
        ultimately show ?thesis using start by (simp only: run if_False)
      qed
    qed
  qed
qed

lemma count_list_filter:
  "count_list (filter P xs) w = (if P w then count_list xs w else 0)"
  by (induction xs) auto

lemma segments_one: "segments text 1 = [text]"
  using segments_nat [of 1 "text"] by simp

text \<open>
  Claim C9. With one worker the run returns the sequential reference count: a word is a
  key exactly if it is a maximal run of word characters of the lowercased text and not a
  stop word, and its count is the number of its occurrences in the whole text.
\<close>

theorem one_worker_is_reference:
  "schedule 1 order \<Longrightarrow>
     (\<exists>d. map_reduce sw text 1 order = Inr d \<and> map_of d = reference_count sw text)"
proof -
  assume s: "schedule 1 order"
  define d where "d = run_threads sw (segments text 1) order"
  have r: "map_reduce sw text 1 order = Inr d" by (simp add: map_reduce_def d_def)
  have toks: "all_tokens sw (segments text 1)
      = filter (\<lambda>word. word \<notin> sw) (maximal_runs (lower text))"
    by (simp add: segments_one all_tokens_def tokens_def Let_def findall_words_runs)
  have "map_of d w = reference_count sw text w" for w
    unfolding map_reduce_table [OF s r] toks reference_count_def Let_def
    by (simp add: count_list_filter count_list_0_iff)
  then have "map_of d = reference_count sw text" by (rule ext)
  with r show ?thesis by blast
qed

theorem one_worker_is_reference_witness:
  "schedule 1 [0] \<and> map_reduce {''a''} ''A bee, a BEE_2 bee!'' 1 [0] = Inr [(''bee'', 2), (''bee_2'', 1)]
     \<and> reference_count {''a''} ''A bee, a BEE_2 bee!'' = map_of [(''bee'', 2), (''bee_2'', 1)]"
proof -
  have s: "schedule 1 [0]" by code_simp
  have r: "map_reduce {''a''} ''A bee, a BEE_2 bee!'' 1 [0] = Inr [(''bee'', 2), (''bee_2'', 1)]"
    by code_simp
  from one_worker_is_reference [OF s, of "{''a''}" "''A bee, a BEE_2 bee!''"]
  have "reference_count {''a''} ''A bee, a BEE_2 bee!'' = map_of [(''bee'', 2), (''bee_2'', 1)]"
    unfolding r by simp
  with s r show ?thesis by blast
qed

section \<open>The ranking\<close>

lemma most_common_sorted: "sorted_wrt (\<lambda>p q. snd q \<le> snd p) (most_common d n)"
proof -
  have "sorted (map (\<lambda>(w, c). - c) (sort_key (\<lambda>(w, c). - c) d))"
    by (rule sorted_sort_key)
  then have "sorted_wrt (\<lambda>p q. snd q \<le> snd p) (sort_key (\<lambda>(w, c). - c) d)"
    by (simp add: sorted_map case_prod_beta)
  then show ?thesis unfolding most_common_def by (rule sorted_wrt_take)
qed

lemma most_common_ties:
  "prefix (filter (\<lambda>p. snd p = c) (most_common d n)) (filter (\<lambda>p. snd p = c) d)"
proof -
  have key: "(\<lambda>p. snd p = c) = (\<lambda>p. (\<lambda>(w, c). - c) p = - c)" for c :: int
    by (auto simp: fun_eq_iff)
  have "filter (\<lambda>p. snd p = c) (sort_key (\<lambda>(w, c). - c) d) = filter (\<lambda>p. snd p = c) d"
    unfolding key by (rule sort_key_stable)
  moreover have "prefix (filter (\<lambda>p. snd p = c) (most_common d n))
      (filter (\<lambda>p. snd p = c) (sort_key (\<lambda>(w, c). - c) d))"
    unfolding most_common_def by (intro filter_mono_prefix take_is_prefix)
  ultimately show ?thesis by simp
qed

text \<open>
  Claim C5 says that entries with equal counts are ranked by a secondary key and not by
  the iteration order of the table. The source has no secondary key: two dictionaries
  with the same keys and counts, iterated in different orders, are ranked differently,
  and the top 2 of the table of the example are \<^verbatim>\<open>cat\<close> and \<^verbatim>\<open>sat\<close>, not \<^verbatim>\<open>cat\<close> and \<^verbatim>\<open>mat\<close>.
\<close>

theorem ties_follow_iteration_order:
  "map_of [(''b'', 1), (''a'', 1)] = map_of [(''a'', 1), (''b'', 1 :: int)]
   \<and> top_words [(''b'', 1), (''a'', 1)] 2 = [(''b'', 1), (''a'', 1)]
   \<and> top_words [(''a'', 1), (''b'', 1)] 2 = [(''a'', 1), (''b'', 1)]
   \<and> top_words [(''cat'', 2), (''sat'', 1), (''mat'', 1), (''ran'', 1)] 2 = [(''cat'', 2), (''sat'', 1)]"
proof -
  have "map_of [(''b'', 1), (''a'', 1)] = map_of [(''a'', 1), (''b'', 1 :: int)]"
    by (rule ext) simp
  moreover have "top_words [(''b'', 1), (''a'', 1)] 2 = [(''b'', 1), (''a'', 1)]"
    by code_simp
  moreover have "top_words [(''a'', 1), (''b'', 1)] 2 = [(''a'', 1), (''b'', 1)]"
    by code_simp
  moreover have "top_words [(''cat'', 2), (''sat'', 1), (''mat'', 1), (''ran'', 1)] 2
      = [(''cat'', 2), (''sat'', 1)]"
    by code_simp
  ultimately show ?thesis by blast
qed

text \<open>
  Claim C5 as amended. For every table and every \<open>N\<close> the ranking has at most \<open>N\<close> entries,
  none when \<open>N = 0\<close>, and is sorted by count, largest first; it is the start of the ranking
  of the whole table, which holds the entries of the table; and the entries of any one
  count stand in the order in which the table iterates them.
\<close>

theorem top_words_ranking:
  "length (top_words word_counts top_n) \<le> nat top_n
   \<and> sorted_wrt (\<lambda>p q. snd q \<le> snd p) (top_words word_counts top_n)
   \<and> top_words word_counts 0 = []
   \<and> top_words word_counts top_n
       = take (nat top_n) (top_words word_counts (int (length word_counts)))
   \<and> mset (top_words word_counts (int (length word_counts))) = mset word_counts
   \<and> prefix (filter (\<lambda>p. snd p = c) (top_words word_counts top_n))
        (filter (\<lambda>p. snd p = c) word_counts)"
proof -
  have "length (top_words word_counts top_n) \<le> nat top_n"
    by (simp add: top_words_def most_common_def)
  moreover have "sorted_wrt (\<lambda>p q. snd q \<le> snd p) (top_words word_counts top_n)"
    by (simp add: top_words_def most_common_sorted)
  moreover have "top_words word_counts 0 = []"
    by (simp add: top_words_def most_common_def)
  moreover have "top_words word_counts top_n
       = take (nat top_n) (top_words word_counts (int (length word_counts)))"
    by (simp add: top_words_def most_common_def)
  moreover have "mset (top_words word_counts (int (length word_counts))) = mset word_counts"
    by (simp add: top_words_def most_common_def)
  moreover have "prefix (filter (\<lambda>p. snd p = c) (top_words word_counts top_n))
        (filter (\<lambda>p. snd p = c) word_counts)"
    by (simp add: top_words_def most_common_ties)
  ultimately show ?thesis by blast
qed

end
